theory Spec2Isabelle
  imports Main
begin

section \<open>Python string primitives\<close>

text \<open>
  The scripts work on Python \<^verbatim>\<open>str\<close> values. A text is modelled as a \<^typ>\<open>string\<close>
  (a list of characters); the model covers texts whose code points are below 256.
  Offsets are positions in that list. \<^verbatim>\<open>str.find\<close> returns \<open>-1\<close> when there is no
  occurrence, so its result is an \<^typ>\<open>int\<close>.
\<close>

text \<open>\<^verbatim>\<open>s.startswith(p)\<close>\<close>

fun startswith :: "string \<Rightarrow> string \<Rightarrow> bool" where
  "startswith s [] = True"
| "startswith [] (p # ps) = False"
| "startswith (x # xs) (p # ps) = (x = p \<and> startswith xs ps)"

text \<open>\<^verbatim>\<open>sub in s\<close>\<close>

fun py_contains :: "string \<Rightarrow> string \<Rightarrow> bool" where
  "py_contains [] sub = (sub = [])"
| "py_contains (x # xs) sub = (startswith (x # xs) sub \<or> py_contains xs sub)"

text \<open>\<^verbatim>\<open>s.find(sub)\<close>: the lowest offset of an occurrence, or \<open>-1\<close>.\<close>

fun py_find :: "string \<Rightarrow> string \<Rightarrow> int" where
  "py_find [] sub = (if sub = [] then 0 else -1)"
| "py_find (x # xs) sub =
     (if startswith (x # xs) sub then 0
      else (let r = py_find xs sub in if r = -1 then -1 else r + 1))"

text \<open>\<^verbatim>\<open>sep.join(parts)\<close>\<close>

fun py_join :: "string \<Rightarrow> string list \<Rightarrow> string" where
  "py_join sep [] = []"
| "py_join sep [p] = p"
| "py_join sep (p # q # ps) = p @ sep @ py_join sep (q # ps)"

text \<open>
  \<^verbatim>\<open>s.replace(old, new)\<close>: every non-overlapping occurrence of \<open>old\<close>, from the left,
  becomes \<open>new\<close>. With an empty \<open>old\<close> Python puts \<open>new\<close> before every character and
  at the end.
\<close>

function py_replace :: "string \<Rightarrow> string \<Rightarrow> string \<Rightarrow> string" where
  "py_replace [] old new = (if old = [] then new else [])"
| "py_replace (x # xs) old new =
     (if old = [] then new @ x # py_replace xs old new
      else if startswith (x # xs) old
        then new @ py_replace (drop (length old) (x # xs)) old new
      else x # py_replace xs old new)"
  by pat_completeness auto
termination
  by (relation "measure (\<lambda>(s, old, new). length s)") auto

text \<open>The backslash, which an Isabelle string literal cannot hold.\<close>

definition bsl :: char where
  "bsl = CHR 0x5C"

section \<open>FunctionTransformer: \<^verbatim>\<open>wrap_function_with_callback\<close>\<close>

text \<open>
  The brace-counting loop of \<^verbatim>\<open>wrap_function_with_callback\<close>
  (\<^verbatim>\<open>for i in range(start_idx, len(content))\<close>). The first argument is the part of the
  text still to be read, \<open>i\<close> the offset of its first character, \<open>brace_count\<close> and
  \<open>in_function\<close> the two loop variables. The result is the offset \<open>i\<close> at which the
  loop reaches \<^verbatim>\<open>break\<close>, and \<open>None\<close> when the range is exhausted first.
\<close>

fun brace_loop :: "string \<Rightarrow> nat \<Rightarrow> int \<Rightarrow> bool \<Rightarrow> nat option" where
  "brace_loop [] i brace_count in_function = None"
| "brace_loop (ch # rest) i brace_count in_function =
     (if ch = CHR ''{'' then brace_loop rest (i + 1) (brace_count + 1) True
      else if ch = CHR ''}'' then
        (if in_function \<and> brace_count - 1 = 0 then Some i
         else brace_loop rest (i + 1) (brace_count - 1) in_function)
      else brace_loop rest (i + 1) brace_count in_function)"

text \<open>The scan from \<open>start_idx\<close>, with the loop variables as the source initialises them.\<close>

definition find_matching_close :: "string \<Rightarrow> nat \<Rightarrow> nat option" where
  "find_matching_close content start_idx = brace_loop (drop start_idx content) start_idx 0 False"

text \<open>
  \<open>end_idx\<close> after the loop: \<open>i + 1\<close> when the loop broke at \<open>i\<close>, and still
  \<open>start_idx\<close> otherwise.
\<close>

definition scan_end_idx :: "string \<Rightarrow> nat \<Rightarrow> nat" where
  "scan_end_idx content start_idx =
     (case find_matching_close content start_idx of Some i \<Rightarrow> i + 1 | None \<Rightarrow> start_idx)"

text \<open>
  The anchor \<^verbatim>\<open>rf"const {func_name} = async \(\) => \{{"\<close>: in a raw f-string the
  backslashes stay and \<^verbatim>\<open>{{\<close> is one brace.
\<close>

definition anchor_pattern :: "string \<Rightarrow> string" where
  "anchor_pattern func_name =
     ''const '' @ func_name @ '' = async '' @ [bsl] @ ''('' @ [bsl] @ '') => '' @ [bsl] @ ''{''"

definition wrap_function_with_callback :: "string \<Rightarrow> string \<Rightarrow> string list \<Rightarrow> string" where
  "wrap_function_with_callback content func_name deps =
     (let pattern = anchor_pattern func_name in
      if \<not> py_contains content pattern then content
      else
        let start_idx = py_find content (''const '' @ func_name @ '' = async'') in
        if start_idx = -1 then content
        else
          let end_idx = scan_end_idx content (nat start_idx) in
          if int end_idx \<le> start_idx then content
          else
            let func_text = take (end_idx - nat start_idx) (drop (nat start_idx) content);
                deps_str = py_join '', '' deps;
                new_func = ''const '' @ func_name @ '' = useCallback(async () => ''
                  @ drop (nat (py_find func_text ''=> {'' + 3)) func_text
                  @ '', ['' @ deps_str @ '']);'';
                before = take (nat start_idx) content;
                after = drop end_idx content;
                semicolon_idx = py_find after '';'';
                after' = (if semicolon_idx \<noteq> -1 then drop (nat (semicolon_idx + 1)) after
                          else after)
            in before @ new_func @ after')"

text \<open>
  The grammar of brace-balanced texts, used to state what the scan finds: a balanced text
  is empty, or a character other than a brace followed by a balanced text, or a balanced
  text in braces followed by a balanced text.
\<close>

inductive balanced :: "string \<Rightarrow> bool" where
  Empty: "balanced []"
| Other: "c \<noteq> CHR ''{'' \<Longrightarrow> c \<noteq> CHR ''}'' \<Longrightarrow> balanced w \<Longrightarrow> balanced (c # w)"
| Nest: "balanced w \<Longrightarrow> balanced v \<Longrightarrow> balanced (CHR ''{'' # w @ CHR ''}'' # v)"

text \<open>
  The depth of a text is the number of its open braces less the number of its close
  braces. Offset \<open>n\<close> of a text closes it when it holds a close brace, an open brace
  comes before it, and the text up to and including it has depth zero.
\<close>

definition depth :: "string \<Rightarrow> int" where
  "depth s = int (count_list s CHR ''{'') - int (count_list s CHR ''}'')"

definition closes_at :: "string \<Rightarrow> nat \<Rightarrow> bool" where
  "closes_at t n =
     (n < length t \<and> t ! n = CHR ''}'' \<and> CHR ''{'' \<in> set (take n t) \<and> depth (take (Suc n) t) = 0)"

section \<open>The regular expressions of the scripts\<close>

text \<open>
  The three patterns of \<^verbatim>\<open>fix_exhaustive_deps.py\<close> are sequences of literal characters,
  \<^verbatim>\<open>[^c]*\<close> and \<^verbatim>\<open>[^c]+\<close>. A pattern is a list of such items. Groups are not
  items of their own: every item reports the text it matched, and a group is read off
  the item it encloses.
\<close>

datatype re_item = Lit string | NotStar char | NotPlus char

text \<open>
  Matching at the start of a text, by backtracking as Python's \<^verbatim>\<open>re\<close> does: a
  repetition is greedy, it first takes one more character and gives it back only when
  the rest of the pattern then fails. The result lists the text matched by each item.
\<close>

function re_match :: "re_item list \<Rightarrow> string \<Rightarrow> string list option" where
  "re_match [] s = Some []"
| "re_match (Lit l # r) s =
     (if startswith s l then map_option ((#) l) (re_match r (drop (length l) s)) else None)"
| "re_match (NotStar c # r) [] = map_option ((#) []) (re_match r [])"
| "re_match (NotStar c # r) (x # xs) =
     (if x \<noteq> c then
        (case re_match (NotStar c # r) xs of
           Some (p # ps) \<Rightarrow> Some ((x # p) # ps)
         | _ \<Rightarrow> map_option ((#) []) (re_match r (x # xs)))
      else map_option ((#) []) (re_match r (x # xs)))"
| "re_match (NotPlus c # r) [] = None"
| "re_match (NotPlus c # r) (x # xs) =
     (if x \<noteq> c then
        (case re_match (NotStar c # r) xs of
           Some (p # ps) \<Rightarrow> Some ((x # p) # ps)
         | _ \<Rightarrow> None)
      else None)"
  by pat_completeness auto
termination
  by (relation "measure (\<lambda>(items, s). length items + length s)") auto

text \<open>The texts an item stands for.\<close>

fun item_matches :: "re_item \<Rightarrow> string \<Rightarrow> bool" where
  "item_matches (Lit l) p = (p = l)"
| "item_matches (NotStar c) p = (c \<notin> set p)"
| "item_matches (NotPlus c) p = (p \<noteq> [] \<and> c \<notin> set p)"

text \<open>\<^verbatim>\<open>re.search\<close>: the leftmost offset at which the pattern matches, with the parts.\<close>

fun re_search :: "re_item list \<Rightarrow> string \<Rightarrow> (nat \<times> string list) option" where
  "re_search items [] = map_option (Pair 0) (re_match items [])"
| "re_search items (x # xs) =
     (case re_match items (x # xs) of
        Some ps \<Rightarrow> Some (0, ps)
      | None \<Rightarrow> map_option (\<lambda>(i, ps). (Suc i, ps)) (re_search items xs))"

text \<open>
  \<^verbatim>\<open>re.finditer\<close>: the matches from left to right, each search starting where the
  match before ended (one character further after an empty match).
\<close>

function re_finditer :: "re_item list \<Rightarrow> string \<Rightarrow> string list list" where
  "re_finditer items s =
     (case re_search items s of
        None \<Rightarrow> []
      | Some (i, ps) \<Rightarrow>
          ps # (if s = [] then []
                else re_finditer items (drop (i + max 1 (length (concat ps))) s)))"
  by pat_completeness auto
termination
  apply (relation "measure (\<lambda>(items, s). length s)")
   apply simp
  apply (case_tac s)
   apply (auto simp: max_def)
  done

text \<open>\<^verbatim>\<open>match.group(0)\<close> and \<^verbatim>\<open>match.group(1)\<close>, the latter for the three patterns
  below, whose only group is their second item.\<close>

definition group0 :: "string list \<Rightarrow> string" where
  "group0 ps = concat ps"

definition group1 :: "string list \<Rightarrow> string" where
  "group1 ps = ps ! 1"

text \<open>
  \<^verbatim>\<open>str.strip()\<close> removes the characters for which \<^verbatim>\<open>str.isspace\<close> holds from both
  ends; below 256 these are the code points 9 to 13, 28 to 32, 133 and 160.
\<close>

definition py_isspace :: "char \<Rightarrow> bool" where
  "py_isspace c = ((of_char c :: nat) \<in> {9, 10, 11, 12, 13, 28, 29, 30, 31, 32, 133, 160})"

definition py_strip :: "string \<Rightarrow> string" where
  "py_strip s = rev (dropWhile py_isspace (rev (dropWhile py_isspace s)))"

section \<open>ImportAugmenter: \<^verbatim>\<open>add_use_callback_import\<close>\<close>

text \<open>\<^verbatim>\<open>r"import React, \{ ([^}]+) \} from 'react';"\<close>\<close>

definition react_import_pattern :: "re_item list" where
  "react_import_pattern =
     [Lit ''import React, { '', NotPlus CHR ''}'', Lit '' } from 'react';'']"

definition add_use_callback_import :: "string \<Rightarrow> string" where
  "add_use_callback_import content =
     (if py_contains content ''useCallback'' then content
      else
        (case re_search react_import_pattern content of
           None \<Rightarrow> content
         | Some (pos, m) \<Rightarrow>
             (let imports = group1 m in
              if \<not> py_contains imports ''useCallback'' then
                (let new_imports = imports @ '', useCallback'' in
                 py_replace content (group0 m)
                   (''import React, { '' @ new_imports @ '' } from 'react';''))
              else content)))"

section \<open>DependencyListPatcher: \<^verbatim>\<open>add_deps_to_useeffect\<close>\<close>

text \<open>
  \<^verbatim>\<open>rf"useEffect\(\(\) => \{{[^}}]*{func_name}\(\);[^}}]*\}}, \[[^\]]*\]\);"\<close>.
  The name is put into the pattern as it is; the model reads its characters as literal
  ones, which is what Python does for a name made of letters, digits and underscores.
\<close>

definition effect_pattern :: "string \<Rightarrow> re_item list" where
  "effect_pattern func_name =
     [Lit ''useEffect(() => {'', NotStar CHR ''}'', Lit func_name, Lit ''();'',
      NotStar CHR ''}'', Lit ''}, ['', NotStar CHR '']'', Lit '']);'']"

text \<open>\<^verbatim>\<open>r'\[([^\]]*)\]'\<close>\<close>

definition bracket_pattern :: "re_item list" where
  "bracket_pattern = [Lit ''['', NotStar CHR '']'', Lit '']'']"

text \<open>The body of the loop over the matches: the text so far and one matched block.\<close>

definition patch_effect :: "string \<Rightarrow> string \<Rightarrow> string \<Rightarrow> string" where
  "patch_effect func_name content effect_text =
     (case re_search bracket_pattern effect_text of
        None \<Rightarrow> content
      | Some (pos, deps_match) \<Rightarrow>
          (let current_deps = py_strip (group1 deps_match) in
           if \<not> py_contains current_deps func_name then
             (let new_deps = (if current_deps \<noteq> [] then current_deps @ '', '' @ func_name
                              else func_name);
                  new_effect = py_replace effect_text (''['' @ current_deps @ '']'')
                                 (''['' @ new_deps @ '']'')
              in py_replace content effect_text new_effect)
           else content))"

definition add_deps_to_useeffect :: "string \<Rightarrow> string \<Rightarrow> string" where
  "add_deps_to_useeffect content func_name =
     foldl (patch_effect func_name) content
       (map group0 (re_finditer (effect_pattern func_name) content))"

text \<open>A name of letters, digits and underscores.\<close>

definition name_char :: "char \<Rightarrow> bool" where
  "name_char c =
     (let n = (of_char c :: nat) in
      (48 \<le> n \<and> n \<le> 57) \<or> (65 \<le> n \<and> n \<le> 90) \<or> (97 \<le> n \<and> n \<le> 122) \<or> n = 95)"

definition plain_name :: "string \<Rightarrow> bool" where
  "plain_name func_name = list_all name_char func_name"

text \<open>The fixed shape of a block, as a text.\<close>

definition effect_open :: string where
  "effect_open = ''useEffect(() => {''"

definition effect_block :: "string \<Rightarrow> string \<Rightarrow> string \<Rightarrow> string \<Rightarrow> string" where
  "effect_block func_name b1 b2 deps =
     effect_open @ b1 @ func_name @ ''();'' @ b2 @ ''}, ['' @ deps @ '']);''"

text \<open>
  Some \<^verbatim>\<open>useEffect(() => {\<close> of the text is followed by \<^verbatim>\<open><func_name>();\<close> before
  the next closing brace.
\<close>

fun has_flat_call :: "string \<Rightarrow> string \<Rightarrow> bool" where
  "has_flat_call [] func_name = False"
| "has_flat_call (x # xs) func_name =
     ((startswith (x # xs) effect_open \<and>
       py_contains (takeWhile (\<lambda>c. c \<noteq> CHR ''}'') (drop (length effect_open) (x # xs)))
         (func_name @ ''();''))
      \<or> has_flat_call xs func_name)"






text \<open>
  A text laid out as gaps and blocks: each entry is a gap and the block after it, and
  \<open>tail\<close> is the gap after the last block.
\<close>

fun render :: "string \<Rightarrow> (string \<times> string \<times> string \<times> string) list \<Rightarrow> string \<Rightarrow> string" where
  "render func_name [] tail = tail"
| "render func_name ((gap, b1, b2, deps) # segs) tail =
     gap @ effect_block func_name b1 b2 deps @ render func_name segs tail"





text \<open>The shape of the import line, as a text.\<close>

definition import_line :: "string \<Rightarrow> string" where
  "import_line names = ''import React, { '' @ names @ '' } from 'react';''"

section \<open>Files: \<^verbatim>\<open>fix_file\<close> and \<^verbatim>\<open>process_file\<close>\<close>

text \<open>
  The file system maps a path to what is stored there: a text, or bytes that do not
  decode to one. \<open>protected\<close> is the set of paths on which a write raises (a read-only
  file, say). Both functions catch every exception, so an exception is a value here.
\<close>

datatype py_exception = FileNotFoundError | UnicodeDecodeError | PermissionError | ReError

datatype stored = Undecodable | Text string

record filesystem =
  files :: "string \<rightharpoonup> stored"
  protected :: "string set"

text \<open>
  Both \<^verbatim>\<open>open(filepath, 'r', encoding='utf-8').read()\<close> and \<^verbatim>\<open>Path.read_text()\<close> read
  in text mode with universal newlines: a carriage return followed by a line feed, and
  a carriage return alone, come out as one line feed.
\<close>

fun universal_newlines :: "string \<Rightarrow> string" where
  "universal_newlines [] = []"
| "universal_newlines [c] = [if c = CHR 0x0D then CHR 0x0A else c]"
| "universal_newlines (c # d # cs) =
     (if c = CHR 0x0D \<and> d = CHR 0x0A then CHR 0x0A # universal_newlines cs
      else if c = CHR 0x0D then CHR 0x0A # universal_newlines (d # cs)
      else c # universal_newlines (d # cs))"

definition read_text :: "filesystem \<Rightarrow> string \<Rightarrow> py_exception + string" where
  "read_text fs path =
     (case files fs path of
        None \<Rightarrow> Inl FileNotFoundError
      | Some Undecodable \<Rightarrow> Inl UnicodeDecodeError
      | Some (Text t) \<Rightarrow> Inr (universal_newlines t))"

text \<open>
  Writing in text mode turns a line feed into the line separator of the system; the
  model is of a POSIX system, where that is the line feed itself, so the text is stored
  as it is.
\<close>

definition write_text :: "filesystem \<Rightarrow> string \<Rightarrow> string \<Rightarrow> py_exception + filesystem" where
  "write_text fs path c =
     (if path \<in> protected fs then Inl PermissionError
      else Inr (fs\<lparr>files := (files fs)(path \<mapsto> Text c)\<rparr>))"

text \<open>
  A rule of \<^verbatim>\<open>fix_all_eslint.py\<close> is a pair of a pattern and a replacement. The pattern
  is a string or a compiled regular expression; of the latter the function uses the
  method \<^verbatim>\<open>sub\<close> only, which is what \<open>Compiled\<close> carries: from the replacement and
  the text to the new text, or to the exception it raises on a replacement template it
  rejects.
\<close>

datatype pattern = Str string | Compiled "string \<Rightarrow> string \<Rightarrow> py_exception + string"

text \<open>The loop over the rules; an exception ends it.\<close>

fun apply_fixes :: "string \<Rightarrow> (pattern \<times> string) list \<Rightarrow> py_exception + string" where
  "apply_fixes content [] = Inr content"
| "apply_fixes content ((Str p, replacement) # fixes) =
     apply_fixes (py_replace content p replacement) fixes"
| "apply_fixes content ((Compiled sub, replacement) # fixes) =
     (case sub replacement content of
        Inl e \<Rightarrow> Inl e
      | Inr content' \<Rightarrow> apply_fixes content' fixes)"

definition fix_file :: "filesystem \<Rightarrow> string \<Rightarrow> (pattern \<times> string) list \<Rightarrow> bool \<times> filesystem" where
  "fix_file fs filepath fixes =
     (case read_text fs filepath of
        Inl e \<Rightarrow> (False, fs)
      | Inr original \<Rightarrow>
          (case apply_fixes original fixes of
             Inl e \<Rightarrow> (False, fs)
           | Inr content \<Rightarrow>
               if content \<noteq> original then
                 (case write_text fs filepath content of
                    Inl e \<Rightarrow> (False, fs)
                  | Inr fs' \<Rightarrow> (True, fs'))
               else (False, fs)))"






section \<open>Facts about the string primitives\<close>

lemma startswith_append: "startswith s p \<Longrightarrow> \<exists>r. s = p @ r"
  by (induction s p rule: startswith.induct) auto

lemma startswith_iff: "startswith s p \<longleftrightarrow> (\<exists>r. s = p @ r)"
proof
  show "startswith s p \<Longrightarrow> \<exists>r. s = p @ r" by (rule startswith_append)
next
  assume "\<exists>r. s = p @ r"
  then obtain r where "s = p @ r" by blast
  then show "startswith s p" by (induction p arbitrary: s) auto
qed

lemma py_contains_iff: "py_contains s sub \<longleftrightarrow> (\<exists>a b. s = a @ sub @ b)"
proof (induction s)
  case Nil
  then show ?case by auto
next
  case (Cons x xs)
  show ?case
  proof
    assume "py_contains (x # xs) sub"
    then consider "startswith (x # xs) sub" | "py_contains xs sub" by auto
    then show "\<exists>a b. x # xs = a @ sub @ b"
    proof cases
      case 1
      then obtain r where "x # xs = sub @ r" using startswith_append by blast
      then have "x # xs = [] @ sub @ r" by simp
      then show ?thesis by blast
    next
      case 2
      then obtain a b where "xs = a @ sub @ b" using Cons.IH by blast
      then have "x # xs = (x # a) @ sub @ b" by simp
      then show ?thesis by blast
    qed
  next
    assume "\<exists>a b. x # xs = a @ sub @ b"
    then obtain a b where ab: "x # xs = a @ sub @ b" by blast
    show "py_contains (x # xs) sub"
    proof (cases a)
      case Nil
      then have "startswith (x # xs) sub" using ab startswith_iff by auto
      then show ?thesis by simp
    next
      case (Cons y ys)
      then have "xs = ys @ sub @ b" using ab by simp
      then have "py_contains xs sub" using Cons.IH by blast
      then show ?thesis by simp
    qed
  qed
qed

lemma py_contains_set: "py_contains s sub \<Longrightarrow> set sub \<subseteq> set s"
  by (auto simp: py_contains_iff)

lemma py_find_ge: "- 1 \<le> py_find s sub"
  by (induction s) (auto simp: Let_def)

lemma py_contains_append_left: "py_contains s sub \<Longrightarrow> py_contains (a @ s) sub"
  by (induction a) auto

lemma py_contains_trans: "py_contains s t \<Longrightarrow> py_contains t u \<Longrightarrow> py_contains s u"
proof -
  assume "py_contains s t" "py_contains t u"
  then obtain a b c d where "s = a @ t @ b" "t = c @ u @ d" by (auto simp: py_contains_iff)
  then have "s = (a @ c) @ u @ (d @ b)" by simp
  then show ?thesis unfolding py_contains_iff by blast
qed

lemma py_replace_contains_new:
  "old \<noteq> [] \<Longrightarrow> py_contains s old \<Longrightarrow> py_contains (py_replace s old new) new"
proof (induction s old new rule: py_replace.induct)
  case (1 old new)
  then show ?case by simp
next
  case (2 x xs old new)
  show ?case
  proof (cases "startswith (x # xs) old")
    case True
    have "py_contains (new @ py_replace (drop (length old) (x # xs)) old new) new"
      unfolding py_contains_iff by (metis append_Nil)
    with True "2.prems"(1) show ?thesis by simp
  next
    case False
    with "2.prems" have "py_contains xs old" by simp
    with False "2.prems"(1) "2.IH"(3) have "py_contains (py_replace xs old new) new" by simp
    then have "py_contains ([x] @ py_replace xs old new) new" by (rule py_contains_append_left)
    with False "2.prems"(1) show ?thesis by simp
  qed
qed

lemma py_replace_absent: "\<not> py_contains s old \<Longrightarrow> py_replace s old new = s"
  by (induction s old new rule: py_replace.induct) auto

lemma py_replace_first:
  "old \<noteq> [] \<Longrightarrow> (\<forall>j<length pre. \<not> startswith (drop j (pre @ old @ post)) old) \<Longrightarrow>
   py_replace (pre @ old @ post) old new = pre @ new @ py_replace post old new"
proof (induction pre)
  case Nil
  obtain y ys where old: "old = y # ys" using Nil.prems(1) by (cases old) auto
  have "startswith (old @ post) old" by (simp add: startswith_iff)
  then show ?case using old by simp
next
  case (Cons x pre)
  from Cons.prems(2) have "\<not> startswith (drop 0 ((x # pre) @ old @ post)) old" by blast
  then have h: "\<not> startswith (x # pre @ old @ post) old" by simp
  have "\<forall>j<length pre. \<not> startswith (drop j (pre @ old @ post)) old"
  proof (intro allI impI)
    fix j assume "j < length pre"
    then have "Suc j < length (x # pre)" by simp
    with Cons.prems(2) have "\<not> startswith (drop (Suc j) ((x # pre) @ old @ post)) old" by blast
    then show "\<not> startswith (drop j (pre @ old @ post)) old" by simp
  qed
  with Cons have "py_replace (pre @ old @ post) old new = pre @ new @ py_replace post old new"
    by blast
  with h Cons.prems(1) show ?case by simp
qed

section \<open>The anchor check of \<^verbatim>\<open>wrap_function_with_callback\<close>\<close>

lemma bsl_in_anchor: "bsl \<in> set (anchor_pattern f)"
  by (simp add: anchor_pattern_def)

text \<open>
  Claim C1. On \<^verbatim>\<open>const loadX = async () => { fetchA(); };\<close> with name \<^verbatim>\<open>loadX\<close> and
  dependencies \<^verbatim>\<open>[userId]\<close> the function is meant to return the declaration wrapped
  in \<^verbatim>\<open>useCallback(..., [userId])\<close>. The code returns the text as it was: the anchor
  is a regular-expression source with backslashes, tested with \<^verbatim>\<open>in\<close>, and the text has
  no backslash.
\<close>

theorem wrap_example_unchanged:
  "wrap_function_with_callback ''const loadX = async () => { fetchA(); };'' ''loadX'' [''userId'']
     = ''const loadX = async () => { fetchA(); };'' \<and>
   wrap_function_with_callback ''const loadX = async () => { fetchA(); };'' ''loadX'' [''userId'']
     \<noteq> ''const loadX = useCallback(async () => { fetchA(); }, [userId]);''"
  by (simp add: wrap_function_with_callback_def anchor_pattern_def bsl_def)

text \<open>
  Claim C2. A text that does not contain the raw anchor string
  \<^verbatim>\<open>const <func_name> = async \(\) => \{\<close>, backslashes included, is returned
  unchanged; so is every text without a backslash.
\<close>

theorem wrap_without_anchor_unchanged:
  "(\<not> py_contains content (anchor_pattern func_name) \<longrightarrow>
      wrap_function_with_callback content func_name deps = content) \<and>
   (bsl \<notin> set content \<longrightarrow> wrap_function_with_callback content func_name deps = content)"
proof -
  have a: "wrap_function_with_callback content func_name deps = content"
    if "\<not> py_contains content (anchor_pattern func_name)"
    using that by (simp add: wrap_function_with_callback_def)
  have "\<not> py_contains content (anchor_pattern func_name)" if "bsl \<notin> set content"
    using that py_contains_set [of content "anchor_pattern func_name"] bsl_in_anchor [of func_name]
    by blast
  with a show ?thesis by blast
qed

theorem wrap_without_anchor_unchanged_witness:
  "\<not> py_contains ''const f = async () => { g(); };'' (anchor_pattern ''f'') \<and>
   bsl \<notin> set ''const f = async () => { g(); };'' \<and>
   wrap_function_with_callback ''const f = async () => { g(); };'' ''f'' [''u'']
     = ''const f = async () => { g(); };''"
  using wrap_without_anchor_unchanged [of "''const f = async () => { g(); };''" "''f''" "[''u'']"]
  by (simp add: bsl_def anchor_pattern_def)

section \<open>The brace scan\<close>

text \<open>
  The loop in terms of the depth: it exhausts the range exactly when no offset closes the
  text read from \<open>start_idx\<close>, and otherwise breaks at the first offset that does.
\<close>

lemma depth_Cons:
  "depth (x # s) = (if x = CHR ''{'' then 1 else if x = CHR ''}'' then - 1 else 0) + depth s"
  by (simp add: depth_def)

lemma brace_loop_None_iff:
  "brace_loop s i bc fl = None \<longleftrightarrow>
     (\<forall>n<length s. \<not> (s ! n = CHR ''}'' \<and> (fl \<or> CHR ''{'' \<in> set (take n s)) \<and>
                         bc + depth (take (Suc n) s) = 0))"
proof (induction s arbitrary: i bc fl)
  case Nil
  then show ?case by simp
next
  case (Cons x s)
  show ?case
    unfolding length_Cons All_less_Suc2
    by (auto simp add: Cons.IH depth_Cons depth_def [of "[]"] algebra_simps)
qed

lemma find_matching_close_None_iff:
  "find_matching_close content start_idx = None \<longleftrightarrow>
     (\<forall>n. \<not> closes_at (drop start_idx content) n)"
  unfolding find_matching_close_def brace_loop_None_iff closes_at_def by auto

lemma brace_loop_Some:
  "brace_loop s i bc fl = Some k \<Longrightarrow>
     \<exists>n. k = i + n \<and> n < length s \<and> s ! n = CHR ''}'' \<and> (fl \<or> CHR ''{'' \<in> set (take n s)) \<and>
         bc + depth (take (Suc n) s) = 0 \<and>
         (\<forall>m<n. \<not> (s ! m = CHR ''}'' \<and> (fl \<or> CHR ''{'' \<in> set (take m s)) \<and>
                         bc + depth (take (Suc m) s) = 0))"
proof (induction s arbitrary: i bc fl)
  case Nil
  then show ?case by simp
next
  case (Cons x s)
  show ?case
  proof (cases "x = CHR ''}'' \<and> fl \<and> bc - 1 = 0")
    case True
    with Cons.prems have "k = i" by simp
    with True show ?thesis by (intro exI [of _ 0]) (simp add: depth_Cons depth_def [of "[]"])
  next
    case False
    define bc' where "bc' = (if x = CHR ''{'' then bc + 1 else if x = CHR ''}'' then bc - 1 else bc)"
    define fl' where "fl' = (x = CHR ''{'' \<or> fl)"
    have "brace_loop s (i + 1) bc' fl' = Some k"
      using Cons.prems False by (auto simp: bc'_def fl'_def split: if_splits)
    from Cons.IH [OF this] obtain n where
      n: "k = i + 1 + n" "n < length s" "s ! n = CHR ''}''" "fl' \<or> CHR ''{'' \<in> set (take n s)"
         "bc' + depth (take (Suc n) s) = 0"
         "\<forall>m<n. \<not> (s ! m = CHR ''}'' \<and> (fl' \<or> CHR ''{'' \<in> set (take m s)) \<and>
                         bc' + depth (take (Suc m) s) = 0)"
      by blast
    have step: "((x # s) ! Suc m = CHR ''}'' \<and> (fl \<or> CHR ''{'' \<in> set (take (Suc m) (x # s))) \<and>
                bc + depth (take (Suc (Suc m)) (x # s)) = 0)
             = (s ! m = CHR ''}'' \<and> (fl' \<or> CHR ''{'' \<in> set (take m s)) \<and>
                bc' + depth (take (Suc m) s) = 0)" for m
      by (auto simp: depth_Cons bc'_def fl'_def)
    have zero: "\<not> ((x # s) ! 0 = CHR ''}'' \<and> (fl \<or> CHR ''{'' \<in> set (take 0 (x # s))) \<and>
                bc + depth (take (Suc 0) (x # s)) = 0)"
      using False by (auto simp: depth_Cons depth_def [of "[]"])
    have "\<forall>m<Suc n. \<not> ((x # s) ! m = CHR ''}'' \<and> (fl \<or> CHR ''{'' \<in> set (take m (x # s))) \<and>
                         bc + depth (take (Suc m) (x # s)) = 0)"
      unfolding All_less_Suc2 using zero n(6) step by blast
    moreover have "(x # s) ! Suc n = CHR ''}'' \<and> (fl \<or> CHR ''{'' \<in> set (take (Suc n) (x # s))) \<and>
                bc + depth (take (Suc (Suc n)) (x # s)) = 0"
      unfolding step using n by blast
    ultimately show ?thesis using n(1,2) by (intro exI [of _ "Suc n"]) simp
  qed
qed

lemma find_matching_close_Some:
  assumes "find_matching_close content start_idx = Some k"
  shows "start_idx \<le> k \<and> closes_at (drop start_idx content) (k - start_idx) \<and>
         (\<forall>m<k - start_idx. \<not> closes_at (drop start_idx content) m)"
proof -
  from brace_loop_Some [OF assms [unfolded find_matching_close_def]]
  show ?thesis unfolding closes_at_def by auto
qed

text \<open>
  Claim C6. When the end of the text is reached and no offset from the scan start closes
  the text, that is, the depth never returns to zero after an open brace, the scan finds
  nothing, \<open>end_idx\<close> is still \<open>start_idx\<close>, and the function returns the text
  unchanged.
\<close>

theorem wrap_scan_not_found_unchanged:
  assumes "\<forall>n. \<not> closes_at
             (drop (nat (py_find content (''const '' @ func_name @ '' = async''))) content) n"
  shows "find_matching_close content
           (nat (py_find content (''const '' @ func_name @ '' = async''))) = None \<and>
         wrap_function_with_callback content func_name deps = content"
proof -
  define start_idx where "start_idx = py_find content (''const '' @ func_name @ '' = async'')"
  have none: "find_matching_close content (nat start_idx) = None"
    using assms unfolding find_matching_close_None_iff start_idx_def by blast
  then have e: "scan_end_idx content (nat start_idx) = nat start_idx"
    by (simp add: scan_end_idx_def)
  have "start_idx = - 1 \<or> int (nat start_idx) \<le> start_idx"
    using py_find_ge [of content "''const '' @ func_name @ '' = async''"]
    by (auto simp: start_idx_def)
  then have "wrap_function_with_callback content func_name deps = content"
    using e unfolding wrap_function_with_callback_def Let_def start_idx_def [symmetric]
    by auto
  with none show ?thesis unfolding start_idx_def by blast
qed

text \<open>
  The witness is a text that passes the anchor check (it holds the backslashes) and whose
  first brace is never closed.
\<close>

theorem wrap_scan_not_found_unchanged_witness:
  "py_contains (anchor_pattern ''f'' @ '' a { b '') (anchor_pattern ''f'') \<and>
   find_matching_close (anchor_pattern ''f'' @ '' a { b '')
     (nat (py_find (anchor_pattern ''f'' @ '' a { b '') (''const '' @ ''f'' @ '' = async''))) = None \<and>
   wrap_function_with_callback (anchor_pattern ''f'' @ '' a { b '') ''f'' [''u'']
     = anchor_pattern ''f'' @ '' a { b ''"
proof -
  have "find_matching_close (anchor_pattern ''f'' @ '' a { b '')
     (nat (py_find (anchor_pattern ''f'' @ '' a { b '') (''const '' @ ''f'' @ '' = async''))) = None"
    by (simp add: anchor_pattern_def bsl_def find_matching_close_def)
  then have "\<forall>n. \<not> closes_at
      (drop (nat (py_find (anchor_pattern ''f'' @ '' a { b '') (''const '' @ ''f'' @ '' = async'')))
         (anchor_pattern ''f'' @ '' a { b '')) n"
    unfolding find_matching_close_None_iff by blast
  from wrap_scan_not_found_unchanged [OF this, of "[''u'']"] show ?thesis
    by (simp add: anchor_pattern_def bsl_def)
qed

text \<open>Inside an open brace the loop passes over a balanced text without stopping.\<close>

lemma brace_loop_skip_balanced:
  "balanced w \<Longrightarrow> 1 \<le> bc \<Longrightarrow>
   brace_loop (w @ s) i bc True = brace_loop s (i + length w) bc True"
proof (induction w arbitrary: i bc s rule: balanced.induct)
  case Empty
  then show ?case by simp
next
  case (Other c w)
  then show ?case by simp
next
  case (Nest w v)
  have "brace_loop ((CHR ''{'' # w @ CHR ''}'' # v) @ s) i bc True
      = brace_loop (w @ (CHR ''}'' # v @ s)) (i + 1) (bc + 1) True"
    by simp
  also have "\<dots> = brace_loop (CHR ''}'' # v @ s) (i + 1 + length w) (bc + 1) True"
    using Nest.prems by (intro Nest.IH(1)) simp
  also have "\<dots> = brace_loop (v @ s) (i + 1 + length w + 1) bc True"
    using Nest.prems by simp
  also have "\<dots> = brace_loop s (i + 1 + length w + 1 + length v) bc True"
    using Nest.prems by (intro Nest.IH(2))
  finally show ?case by (simp add: add.assoc)
qed

lemma brace_loop_skip_plain:
  "CHR ''{'' \<notin> set pre \<Longrightarrow> CHR ''}'' \<notin> set pre \<Longrightarrow>
   brace_loop (pre @ s) i bc fl = brace_loop s (i + length pre) bc fl"
  by (induction pre arbitrary: i) auto

lemma balanced_example: "balanced '' a { b } c ''"
proof -
  have b: "balanced '' b ''" by (simp add: balanced.Other balanced.Empty)
  have c: "balanced '' c ''" by (simp add: balanced.Other balanced.Empty)
  have "balanced (CHR ''{'' # '' b '' @ CHR ''}'' # '' c '')" using b c by (rule balanced.Nest)
  then have "balanced ''{ b } c ''" by simp
  then show ?thesis by (simp add: balanced.Other)
qed

text \<open>
  Claim C5. Let the text from the scan start on be some characters without braces, an
  open brace, a balanced body, the close brace and anything after it. The scan returns
  the offset of that close brace, whatever pairs the body nests; \<open>end_idx\<close> is one
  more. On \<^verbatim>\<open>{ a { b } c }\<close> from offset 0 this is offset 12.
\<close>

theorem brace_scan_balanced:
  assumes "CHR ''{'' \<notin> set pre" and "CHR ''}'' \<notin> set pre" and "balanced body"
  shows "find_matching_close (before @ pre @ ''{'' @ body @ ''}'' @ rest) (length before)
           = Some (length before + length pre + 1 + length body) \<and>
         scan_end_idx (before @ pre @ ''{'' @ body @ ''}'' @ rest) (length before)
           = length before + length pre + 1 + length body + 1"
proof -
  let ?n = "length before"
  have "find_matching_close (before @ pre @ ''{'' @ body @ ''}'' @ rest) ?n
      = brace_loop (pre @ (''{'' @ body @ ''}'' @ rest)) ?n 0 False"
    by (simp add: find_matching_close_def)
  also have "\<dots> = brace_loop (''{'' @ body @ ''}'' @ rest) (?n + length pre) 0 False"
    using assms(1,2) by (rule brace_loop_skip_plain)
  also have "\<dots> = brace_loop (body @ (''}'' @ rest)) (?n + length pre + 1) 1 True"
    by simp
  also have "\<dots> = brace_loop (''}'' @ rest) (?n + length pre + 1 + length body) 1 True"
    using assms(3) by (intro brace_loop_skip_balanced) simp_all
  also have "\<dots> = Some (?n + length pre + 1 + length body)"
    by simp
  finally show ?thesis by (simp add: scan_end_idx_def)
qed

theorem brace_scan_balanced_witness:
  "CHR ''{'' \<notin> set [] \<and> CHR ''}'' \<notin> set [] \<and> balanced '' a { b } c '' \<and>
   find_matching_close ''{ a { b } c }'' 0 = Some 12 \<and> scan_end_idx ''{ a { b } c }'' 0 = 13"
  using brace_scan_balanced [of "[]" "'' a { b } c ''" "[]" "[]"] balanced_example
  by simp

section \<open>Facts about the matcher\<close>

text \<open>
  A match splits a prefix of the text into one part for each item, and a text that can
  be split so has a match. A search returns the leftmost offset with a match.
\<close>

lemma startswith_drop: "startswith s p \<Longrightarrow> p @ drop (length p) s = s"
  by (induction s p rule: startswith.induct) auto

lemma re_match_sound:
  "re_match items s = Some ps \<Longrightarrow>
     list_all2 item_matches items ps \<and> (\<exists>rest. s = concat ps @ rest)"
proof (induction items s arbitrary: ps rule: re_match.induct)
  case (1 s)
  then show ?case by simp
next
  case (2 l r s)
  from "2.prems" obtain qs where sw: "startswith s l"
    and qs: "re_match r (drop (length l) s) = Some qs" "ps = l # qs"
    by (auto split: if_splits)
  from "2.IH" [OF sw qs(1)] obtain rest where
    ih: "list_all2 item_matches r qs" "drop (length l) s = concat qs @ rest" by blast
  have "s = l @ concat qs @ rest" using startswith_drop [OF sw] ih(2) by simp
  then show ?case using ih(1) qs(2) by simp
next
  case (3 c r)
  then show ?case by auto
next
  case (4 c r x xs)
  then show ?case
    by (auto split: if_splits option.splits list.splits)
next
  case (5 c r)
  then show ?case by simp
next
  case (6 c r x xs)
  then show ?case
    by (auto split: if_splits option.splits list.splits)
qed

lemma re_match_star_complete:
  "c \<notin> set p \<Longrightarrow> re_match r t \<noteq> None \<Longrightarrow> re_match (NotStar c # r) (p @ t) \<noteq> None"
proof (induction p)
  case Nil
  then show ?case by (cases t) (auto split: option.splits list.splits)
next
  case (Cons y p)
  then have "re_match (NotStar c # r) (p @ t) \<noteq> None" by simp
  then obtain qs where qs: "re_match (NotStar c # r) (p @ t) = Some qs" by blast
  then have "list_all2 item_matches (NotStar c # r) qs" using re_match_sound by blast
  then obtain q qs' where "qs = q # qs'" by (cases qs) auto
  with qs Cons.prems show ?case by auto
qed

lemma re_match_complete:
  "list_all2 item_matches items ps \<Longrightarrow> re_match items (concat ps @ rest) \<noteq> None"
proof (induction items arbitrary: ps rest)
  case Nil
  then show ?case by simp
next
  case (Cons it items)
  then obtain p ps' where ps: "ps = p # ps'" "item_matches it p" "list_all2 item_matches items ps'"
    by (cases ps) auto
  have rest: "re_match items (concat ps' @ rest) \<noteq> None" using Cons.IH ps(3) by blast
  show ?case
  proof (cases it)
    case (Lit l)
    then show ?thesis using ps rest by (auto simp: startswith_iff)
  next
    case (NotStar c)
    then show ?thesis using ps rest re_match_star_complete [of c p items "concat ps' @ rest"] by simp
  next
    case (NotPlus c)
    then obtain y p' where p: "p = y # p'" "y \<noteq> c" "c \<notin> set p'" using ps(2) by (cases p) auto
    have "re_match (NotStar c # items) (p' @ concat ps' @ rest) \<noteq> None"
      using p(3) rest by (rule re_match_star_complete)
    then obtain qs where qs: "re_match (NotStar c # items) (p' @ concat ps' @ rest) = Some qs" by blast
    then have "list_all2 item_matches (NotStar c # items) qs" using re_match_sound by blast
    then obtain q qs' where "qs = q # qs'" by (cases qs) auto
    with qs p NotPlus ps(1) show ?thesis by simp
  qed
qed

lemma re_search_Some:
  "re_search items s = Some (i, ps) \<Longrightarrow>
     i \<le> length s \<and> re_match items (drop i s) = Some ps \<and> (\<forall>j<i. re_match items (drop j s) = None)"
proof (induction s arbitrary: i)
  case Nil
  then show ?case by auto
next
  case (Cons x xs)
  show ?case
  proof (cases "re_match items (x # xs)")
    case (Some qs)
    with Cons.prems show ?thesis by simp
  next
    case None
    with Cons.prems obtain i' where i': "re_search items xs = Some (i', ps)" "i = Suc i'"
      by (auto split: option.splits)
    from Cons.IH [OF i'(1)] have ih: "i' \<le> length xs" "re_match items (drop i' xs) = Some ps"
      "\<forall>j<i'. re_match items (drop j xs) = None" by auto
    have "re_match items (drop j (x # xs)) = None" if "j < i" for j
      using that None ih(3) i'(2) by (cases j) auto
    then show ?thesis using ih i'(2) by simp
  qed
qed

lemma re_search_None:
  "re_search items s = None \<Longrightarrow> j \<le> length s \<Longrightarrow> re_match items (drop j s) = None"
proof (induction s arbitrary: j)
  case Nil
  then show ?case by auto
next
  case (Cons x xs)
  then show ?case by (cases j) (auto split: option.splits)
qed

lemma re_search_at:
  "(\<forall>j<length pre. re_match items (drop j (pre @ s)) = None) \<Longrightarrow> re_match items s = Some ps
   \<Longrightarrow> re_search items (pre @ s) = Some (length pre, ps)"
proof (induction pre)
  case Nil
  then show ?case by (cases s) auto
next
  case (Cons x pre)
  from Cons.prems(1) have "re_match items (drop 0 ((x # pre) @ s)) = None" by blast
  then have h: "re_match items (x # pre @ s) = None" by simp
  have "\<forall>j<length pre. re_match items (drop j (pre @ s)) = None"
  proof (intro allI impI)
    fix j assume "j < length pre"
    then have "Suc j < length (x # pre)" by simp
    with Cons.prems(1) have "re_match items (drop (Suc j) ((x # pre) @ s)) = None" by blast
    then show "re_match items (drop j (pre @ s)) = None" by simp
  qed
  with Cons have "re_search items (pre @ s) = Some (length pre, ps)" by blast
  with h show ?case by simp
qed

lemma re_search_none_if:
  "(\<forall>j\<le>length s. re_match items (drop j s) = None) \<Longrightarrow> re_search items s = None"
proof (induction s)
  case Nil
  then show ?case by auto
next
  case (Cons x xs)
  from Cons.prems have "re_match items (drop 0 (x # xs)) = None" by blast
  then have h: "re_match items (x # xs) = None" by simp
  have "\<forall>j\<le>length xs. re_match items (drop j xs) = None"
  proof (intro allI impI)
    fix j assume "j \<le> length xs"
    then have "Suc j \<le> length (x # xs)" by simp
    with Cons.prems have "re_match items (drop (Suc j) (x # xs)) = None" by blast
    then show "re_match items (drop j xs) = None" by simp
  qed
  with Cons.IH have "re_search items xs = None" by blast
  with h show ?case by simp
qed

section \<open>The import line\<close>

text \<open>What a match of the import pattern looks like.\<close>

lemma import_match_shape:
  assumes "re_match react_import_pattern s = Some m"
  shows "\<exists>names rest. names \<noteq> [] \<and> CHR ''}'' \<notin> set names \<and>
           m = [''import React, { '', names, '' } from 'react';''] \<and>
           group1 m = names \<and> group0 m = import_line names \<and> s = import_line names @ rest"
proof -
  from re_match_sound [OF assms] obtain rest where
    a: "list_all2 item_matches react_import_pattern m" and r: "s = concat m @ rest" by blast
  from a obtain names where
    m: "m = [''import React, { '', names, '' } from 'react';'']" "names \<noteq> []" "CHR ''}'' \<notin> set names"
    unfolding react_import_pattern_def by (auto simp: list_all2_Cons1)
  show ?thesis using m r by (auto simp: group1_def group0_def import_line_def)
qed

lemma import_shape_match:
  assumes "names \<noteq> []" "CHR ''}'' \<notin> set names"
  shows "re_match react_import_pattern (import_line names @ rest) \<noteq> None"
proof -
  have "list_all2 item_matches react_import_pattern [''import React, { '', names, '' } from 'react';'']"
    using assms by (simp add: react_import_pattern_def)
  from re_match_complete [OF this, of rest] show ?thesis by (simp add: import_line_def)
qed

lemma import_line_nonempty: "import_line names \<noteq> []"
  by (simp add: import_line_def)

lemma import_line_useCallback: "py_contains (import_line (names @ '', useCallback'')) ''useCallback''"
proof -
  have "import_line (names @ '', useCallback'') = (''import React, { '' @ names @ '', '') @ ''useCallback'' @ '' } from 'react';''"
    by (simp add: import_line_def)
  then show ?thesis unfolding py_contains_iff by blast
qed

text \<open>The function in terms of the shape.\<close>

lemma add_import_cases:
  "add_use_callback_import content = content \<or>
   (\<exists>pos names post. \<not> py_contains content ''useCallback'' \<and> names \<noteq> [] \<and> CHR ''}'' \<notin> set names \<and>
      pos \<le> length content \<and> drop pos content = import_line names @ post \<and>
      (\<forall>j<pos. re_match react_import_pattern (drop j content) = None) \<and>
      add_use_callback_import content
        = py_replace content (import_line names) (import_line (names @ '', useCallback'')))"
proof (cases "py_contains content ''useCallback''")
  case True
  then show ?thesis by (simp add: add_use_callback_import_def)
next
  case False
  show ?thesis
  proof (cases "re_search react_import_pattern content")
    case None
    with False show ?thesis by (simp add: add_use_callback_import_def)
  next
    case (Some a)
    obtain pos m where a: "a = (pos, m)" by (cases a)
    from re_search_Some [OF Some [unfolded a]] have
      s: "pos \<le> length content" "re_match react_import_pattern (drop pos content) = Some m"
         "\<forall>j<pos. re_match react_import_pattern (drop j content) = None" by auto
    from import_match_shape [OF s(2)] obtain names post where
      n: "names \<noteq> []" "CHR ''}'' \<notin> set names" "group1 m = names" "group0 m = import_line names"
         "drop pos content = import_line names @ post" by blast
    have "py_contains content names"
    proof -
      have "content = take pos content @ drop pos content" by simp
      also have "\<dots> = (take pos content @ ''import React, { '') @ names @ ('' } from 'react';'' @ post)"
        using n(5) by (simp add: import_line_def)
      finally show ?thesis unfolding py_contains_iff by blast
    qed
    then have "\<not> py_contains names ''useCallback''"
      using False py_contains_trans by blast
    then have "add_use_callback_import content
        = py_replace content (import_line names) (import_line (names @ '', useCallback''))"
      using False Some a n(3,4) by (simp add: add_use_callback_import_def Let_def import_line_def)
    then show ?thesis using False n s by blast
  qed
qed

text \<open>
  Claim C7. A text that contains \<^verbatim>\<open>useCallback\<close> anywhere is returned unchanged, and
  applying the function to its own result changes nothing: after an insertion the text
  contains the symbol, so it is never inserted twice.
\<close>

theorem import_idempotent:
  "(py_contains content ''useCallback'' \<longrightarrow> add_use_callback_import content = content) \<and>
   add_use_callback_import (add_use_callback_import content) = add_use_callback_import content"
proof
  show "py_contains content ''useCallback'' \<longrightarrow> add_use_callback_import content = content"
    by (simp add: add_use_callback_import_def)
next
  from add_import_cases [of content]
  show "add_use_callback_import (add_use_callback_import content) = add_use_callback_import content"
  proof
    assume "add_use_callback_import content = content"
    then show ?thesis by simp
  next
    assume "\<exists>pos names post. \<not> py_contains content ''useCallback'' \<and> names \<noteq> [] \<and> CHR ''}'' \<notin> set names \<and>
      pos \<le> length content \<and> drop pos content = import_line names @ post \<and>
      (\<forall>j<pos. re_match react_import_pattern (drop j content) = None) \<and>
      add_use_callback_import content
        = py_replace content (import_line names) (import_line (names @ '', useCallback''))"
    then obtain pos names post where
      d: "drop pos content = import_line names @ post" and
      r: "add_use_callback_import content
        = py_replace content (import_line names) (import_line (names @ '', useCallback''))"
      by blast
    have "content = take pos content @ import_line names @ post" using d by (metis append_take_drop_id)
    then have "py_contains content (import_line names)" unfolding py_contains_iff by blast
    then have "py_contains (add_use_callback_import content) (import_line (names @ '', useCallback''))"
      unfolding r using import_line_nonempty by (intro py_replace_contains_new)
    then have "py_contains (add_use_callback_import content) ''useCallback''"
      using import_line_useCallback py_contains_trans by blast
    then show ?thesis by (simp add: add_use_callback_import_def [of "add_use_callback_import content"])
  qed
qed

lemma import_shape_search:
  assumes "names \<noteq> []" "CHR ''}'' \<notin> set names" "content = pre @ import_line names @ post"
  shows "re_search react_import_pattern content \<noteq> None"
proof
  assume "re_search react_import_pattern content = None"
  then have "re_match react_import_pattern (drop (length pre) content) = None"
    by (rule re_search_None) (simp add: assms(3))
  then show False using import_shape_match [OF assms(1,2), of post] by (simp add: assms(3))
qed

text \<open>
  Claim C10, as amended. When the function changes the text, the text is some \<open>pre\<close>,
  a text of the shape \<^verbatim>\<open>import React, { <names> } from 'react';\<close> with \<open>names\<close>
  non-empty and free of \<^verbatim>\<open>}\<close>, and some \<open>post\<close>, and no text of that shape starts
  further left; the result is \<open>pre\<close>, the same shape with \<^verbatim>\<open>, useCallback\<close> appended
  to \<open>names\<close>, and \<open>post\<close> in which every further copy of that same import text is
  rewritten in the same way. When the symbol is absent and the text has no part of
  that shape, the text is returned unchanged; when the symbol is absent and there is
  such a part, the text changes.
\<close>

theorem import_rewrite_frame:
  "(add_use_callback_import content \<noteq> content \<longrightarrow>
      (\<exists>pre names post. names \<noteq> [] \<and> CHR ''}'' \<notin> set names \<and>
         content = pre @ import_line names @ post \<and>
         (\<forall>pre' names' post'. names' \<noteq> [] \<and> CHR ''}'' \<notin> set names' \<and>
            content = pre' @ import_line names' @ post' \<longrightarrow> length pre \<le> length pre') \<and>
         add_use_callback_import content
           = pre @ import_line (names @ '', useCallback'')
               @ py_replace post (import_line names) (import_line (names @ '', useCallback'')))) \<and>
   (\<not> py_contains content ''useCallback'' \<and>
    (\<nexists>pre names post. names \<noteq> [] \<and> CHR ''}'' \<notin> set names \<and>
       content = pre @ import_line names @ post)
      \<longrightarrow> add_use_callback_import content = content) \<and>
   (\<not> py_contains content ''useCallback'' \<and>
    (\<exists>pre names post. names \<noteq> [] \<and> CHR ''}'' \<notin> set names \<and>
       content = pre @ import_line names @ post)
      \<longrightarrow> add_use_callback_import content \<noteq> content)"
proof (intro conjI impI)
  assume ch: "add_use_callback_import content \<noteq> content"
  with add_import_cases [of content] obtain pos names post where
    n: "names \<noteq> []" "CHR ''}'' \<notin> set names" and
    d: "drop pos content = import_line names @ post" and
    mn: "\<forall>j<pos. re_match react_import_pattern (drop j content) = None" and
    le: "pos \<le> length content" and
    r: "add_use_callback_import content
        = py_replace content (import_line names) (import_line (names @ '', useCallback''))"
    by blast
  let ?pre = "take pos content"
  have c: "content = ?pre @ import_line names @ post" using d by (metis append_take_drop_id)
  have len: "length ?pre = pos" using le by simp
  have left: "length ?pre \<le> length pre'"
    if "names' \<noteq> [] \<and> CHR ''}'' \<notin> set names' \<and> content = pre' @ import_line names' @ post'"
    for pre' names' post'
  proof (rule ccontr)
    assume "\<not> length ?pre \<le> length pre'"
    then have "length pre' < pos" using len by simp
    with mn have "re_match react_import_pattern (drop (length pre') content) = None" by blast
    moreover have "drop (length pre') content = import_line names' @ post'" using that by simp
    ultimately show False using import_shape_match [of names' post'] that by simp
  qed
  have "\<not> startswith (drop j (?pre @ import_line names @ post)) (import_line names)"
    if "j < length ?pre" for j
  proof
    assume "startswith (drop j (?pre @ import_line names @ post)) (import_line names)"
    then obtain rest where "drop j content = import_line names @ rest"
      using c startswith_append by metis
    then have "re_match react_import_pattern (drop j content) \<noteq> None"
      using import_shape_match [OF n] by simp
    then show False using mn that len by simp
  qed
  then have "py_replace (?pre @ import_line names @ post) (import_line names)
               (import_line (names @ '', useCallback''))
             = ?pre @ import_line (names @ '', useCallback'')
                 @ py_replace post (import_line names) (import_line (names @ '', useCallback''))"
    using import_line_nonempty by (intro py_replace_first) auto
  then have "add_use_callback_import content
           = ?pre @ import_line (names @ '', useCallback'')
               @ py_replace post (import_line names) (import_line (names @ '', useCallback''))"
    using r c by simp
  with n c left show "\<exists>pre names post. names \<noteq> [] \<and> CHR ''}'' \<notin> set names \<and>
         content = pre @ import_line names @ post \<and>
         (\<forall>pre' names' post'. names' \<noteq> [] \<and> CHR ''}'' \<notin> set names' \<and>
            content = pre' @ import_line names' @ post' \<longrightarrow> length pre \<le> length pre') \<and>
         add_use_callback_import content
           = pre @ import_line (names @ '', useCallback'')
               @ py_replace post (import_line names) (import_line (names @ '', useCallback''))"
    by blast
next
  assume a: "\<not> py_contains content ''useCallback'' \<and>
    (\<nexists>pre names post. names \<noteq> [] \<and> CHR ''}'' \<notin> set names \<and>
       content = pre @ import_line names @ post)"
  show "add_use_callback_import content = content"
  proof (rule ccontr)
    assume "add_use_callback_import content \<noteq> content"
    with add_import_cases [of content] obtain pos names post where
      n: "names \<noteq> []" "CHR ''}'' \<notin> set names" and
      d: "drop pos content = import_line names @ post"
      by blast
    have "content = take pos content @ import_line names @ post" using d by (metis append_take_drop_id)
    with n a show False by blast
  qed
next
  assume a: "\<not> py_contains content ''useCallback'' \<and>
    (\<exists>pre names post. names \<noteq> [] \<and> CHR ''}'' \<notin> set names \<and>
       content = pre @ import_line names @ post)"
  then obtain pre names post where
    n: "names \<noteq> []" "CHR ''}'' \<notin> set names" "content = pre @ import_line names @ post" by blast
  from import_shape_search [OF n] obtain pos m where
    s: "re_search react_import_pattern content = Some (pos, m)" by auto
  from re_search_Some [OF s] have "re_match react_import_pattern (drop pos content) = Some m" by blast
  from import_match_shape [OF this] obtain names2 post2 where
    m: "group1 m = names2" "group0 m = import_line names2"
       "drop pos content = import_line names2 @ post2" by blast
  have c2: "content = take pos content @ import_line names2 @ post2"
    using m(3) by (metis append_take_drop_id)
  have "py_contains content names2"
  proof -
    have "content = (take pos content @ ''import React, { '') @ names2 @ ('' } from 'react';'' @ post2)"
      using c2 by (simp add: import_line_def)
    then show ?thesis unfolding py_contains_iff by blast
  qed
  then have nc: "\<not> py_contains names2 ''useCallback''" using a py_contains_trans by blast
  have r: "add_use_callback_import content
        = py_replace content (import_line names2) (import_line (names2 @ '', useCallback''))"
    using a s m(1,2) nc by (simp add: add_use_callback_import_def Let_def import_line_def)
  have "py_contains content (import_line names2)" using c2 unfolding py_contains_iff by blast
  then have "py_contains (add_use_callback_import content) (import_line (names2 @ '', useCallback''))"
    unfolding r using import_line_nonempty by (intro py_replace_contains_new)
  then have "py_contains (add_use_callback_import content) ''useCallback''"
    using import_line_useCallback py_contains_trans by blast
  with a show "add_use_callback_import content \<noteq> content" by auto
qed

lemma no_import_shape:
  assumes "re_search react_import_pattern content = None"
  shows "\<nexists>pre names post. names \<noteq> [] \<and> CHR ''}'' \<notin> set names \<and>
       content = pre @ import_line names @ post"
  using assms import_shape_search by blast

theorem import_rewrite_frame_witness:
  "add_use_callback_import ''import React, { useState } from 'react'; f();''
     = ''import React, { useState, useCallback } from 'react'; f();'' \<and>
   \<not> py_contains ''const a = 1;'' ''useCallback'' \<and>
   add_use_callback_import ''const a = 1;'' = ''const a = 1;''"
proof -
  have 1: "add_use_callback_import ''import React, { useState } from 'react'; f();''
     \<noteq> ''import React, { useState } from 'react'; f();''"
    by (simp add: add_use_callback_import_def react_import_pattern_def group0_def group1_def)
  have 2: "\<not> py_contains ''const a = 1;'' ''useCallback''" by simp
  have "re_search react_import_pattern ''const a = 1;'' = None"
    by (simp add: react_import_pattern_def)
  then have 3: "\<nexists>pre names post. names \<noteq> [] \<and> CHR ''}'' \<notin> set names \<and>
       ''const a = 1;'' = pre @ import_line names @ post"
    by (rule no_import_shape)
  have 4: "add_use_callback_import ''import React, { useState } from 'react'; f();''
     = ''import React, { useState, useCallback } from 'react'; f();''"
    by (simp add: add_use_callback_import_def react_import_pattern_def group0_def group1_def)
  show ?thesis
    using import_rewrite_frame [of "''import React, { useState } from 'react'; f();''"]
      import_rewrite_frame [of "''const a = 1;''"] 1 2 3 4
    by blast
qed

text \<open>
  Claim C10 as stated fails on a text with the same import line twice: both copies are
  rewritten, not one line with all text outside it unchanged.
\<close>

theorem import_duplicate_counterexample:
  "add_use_callback_import ''import React, { a } from 'react';import React, { a } from 'react';''
     = ''import React, { a, useCallback } from 'react';import React, { a, useCallback } from 'react';'' \<and>
   add_use_callback_import ''import React, { a } from 'react';import React, { a } from 'react';''
     \<noteq> ''import React, { a, useCallback } from 'react';import React, { a } from 'react';''"
  by (simp add: add_use_callback_import_def react_import_pattern_def group0_def group1_def)

theorem import_idempotent_witness:
  "py_contains ''// useCallback later'' ''useCallback'' \<and>
   add_use_callback_import ''// useCallback later'' = ''// useCallback later'' \<and>
   add_use_callback_import (add_use_callback_import ''import React, { useState } from 'react';'')
     = ''import React, { useState, useCallback } from 'react';''"
proof -
  have "add_use_callback_import ''import React, { useState } from 'react';''
     = ''import React, { useState, useCallback } from 'react';''"
    by (simp add: add_use_callback_import_def react_import_pattern_def group0_def group1_def)
  then show ?thesis
    using import_idempotent [of "''// useCallback later''"]
      import_idempotent [of "''import React, { useState } from 'react';''"]
    by simp
qed

section \<open>Change detection and write-back\<close>




text \<open>
  The text compared is the text after newline translation: a file with carriage returns
  that no rule touches is left as it is, and one that a rule changes is written with
  line feeds.
\<close>

lemma fix_file_newlines:
  "fix_file \<lparr>files = [''a.tsx'' \<mapsto> Text (''x;'' @ [CHR 0x0D, CHR 0x0A] @ ''y;'')], protected = {}\<rparr>
       ''a.tsx'' [(Str ''q;'', ''r;'')]
     = (False, \<lparr>files = [''a.tsx'' \<mapsto> Text (''x;'' @ [CHR 0x0D, CHR 0x0A] @ ''y;'')], protected = {}\<rparr>)"
  "fix_file \<lparr>files = [''a.tsx'' \<mapsto> Text (''x;'' @ [CHR 0x0D, CHR 0x0A] @ ''y;'')], protected = {}\<rparr>
       ''a.tsx'' [(Str ''y;'', ''z;'')]
     = (True, \<lparr>files = [''a.tsx'' \<mapsto> Text (''x;'' @ [CHR 0x0A] @ ''z;'')], protected = {}\<rparr>)"
  by (simp_all add: fix_file_def read_text_def write_text_def)

section \<open>The dependency list\<close>

lemma plain_name_chars:
  assumes "plain_name func_name"
  shows "CHR ''}'' \<notin> set func_name" and "CHR ''['' \<notin> set func_name"
proof -
  have "\<not> name_char CHR ''}''" "\<not> name_char CHR ''[''" by (simp_all add: name_char_def)
  moreover have "\<forall>c\<in>set func_name. name_char c" using assms by (simp add: plain_name_def list_all_iff)
  ultimately show "CHR ''}'' \<notin> set func_name" and "CHR ''['' \<notin> set func_name" by blast+
qed


lemma takeWhile_upto: "c \<notin> set a \<Longrightarrow> takeWhile (\<lambda>x. x \<noteq> c) (a @ c # b) = a"
  by (induction a) auto

lemma effect_match_shape:
  assumes "re_match (effect_pattern func_name) s = Some ps"
  shows "\<exists>p1 p2 p3 rest. CHR ''}'' \<notin> set p1 \<and> CHR ''}'' \<notin> set p2 \<and> CHR '']'' \<notin> set p3 \<and>
           group0 ps = effect_block func_name p1 p2 p3 \<and> s = effect_block func_name p1 p2 p3 @ rest"
proof -
  from re_match_sound [OF assms] obtain rest where
    a: "list_all2 item_matches (effect_pattern func_name) ps" and r: "s = concat ps @ rest" by blast
  from a obtain p1 p2 p3 where
    "ps = [''useEffect(() => {'', p1, func_name, ''();'', p2, ''}, ['', p3, '']);'']"
    "CHR ''}'' \<notin> set p1" "CHR ''}'' \<notin> set p2" "CHR '']'' \<notin> set p3"
    unfolding effect_pattern_def by (auto simp: list_all2_Cons1)
  then show ?thesis using r by (auto simp: group0_def effect_block_def effect_open_def)
qed



lemma add_deps_no_match:
  "re_search (effect_pattern func_name) content = None \<Longrightarrow>
   add_deps_to_useeffect content func_name = content"
  by (simp add: add_deps_to_useeffect_def)

text \<open>
  Claim C9. Only a block of the fixed shape is patched, and the two parts of its body
  hold no closing brace. So the text is returned unchanged when no
  \<^verbatim>\<open>useEffect(() => {\<close> is followed by \<^verbatim>\<open><func_name>();\<close> before the next closing
  brace, and in particular when the text has no \<^verbatim>\<open><func_name>();\<close> at all.
\<close>

theorem add_deps_needs_flat_body:
  assumes "plain_name func_name"
  shows "((\<forall>pre rest. content = pre @ effect_open @ rest \<longrightarrow>
            \<not> py_contains (takeWhile (\<lambda>c. c \<noteq> CHR ''}'') rest) (func_name @ ''();''))
          \<longrightarrow> add_deps_to_useeffect content func_name = content) \<and>
         (\<not> py_contains content (func_name @ ''();'')
          \<longrightarrow> add_deps_to_useeffect content func_name = content)"
proof -
  have nb: "CHR ''}'' \<notin> set func_name" using assms by (rule plain_name_chars)
  have shape: "\<exists>pre p1 p2 tl. CHR ''}'' \<notin> set p1 \<and> CHR ''}'' \<notin> set p2 \<and>
      content = pre @ effect_open @ (p1 @ func_name @ ''();'' @ p2) @ CHR ''}'' # tl"
    if "add_deps_to_useeffect content func_name \<noteq> content"
  proof -
    from that have "re_search (effect_pattern func_name) content \<noteq> None"
      using add_deps_no_match by blast
    then obtain i ps where "re_search (effect_pattern func_name) content = Some (i, ps)" by auto
    then have "re_match (effect_pattern func_name) (drop i content) = Some ps"
      using re_search_Some by blast
    from effect_match_shape [OF this] obtain p1 p2 p3 rest where
      p: "CHR ''}'' \<notin> set p1" "CHR ''}'' \<notin> set p2"
         "drop i content = effect_block func_name p1 p2 p3 @ rest" by blast
    have "content = take i content @ drop i content" by simp
    also have "\<dots> = take i content @ effect_open @ (p1 @ func_name @ ''();'' @ p2)
                  @ CHR ''}'' # ('', ['' @ p3 @ '']);'' @ rest)"
      using p(3) by (simp add: effect_block_def)
    finally show ?thesis using p(1,2) by blast
  qed
  show ?thesis
  proof (intro conjI impI)
    assume h: "\<forall>pre rest. content = pre @ effect_open @ rest \<longrightarrow>
            \<not> py_contains (takeWhile (\<lambda>c. c \<noteq> CHR ''}'') rest) (func_name @ ''();'')"
    show "add_deps_to_useeffect content func_name = content"
    proof (rule ccontr)
      assume "add_deps_to_useeffect content func_name \<noteq> content"
      from shape [OF this] obtain pre p1 p2 tl where
        p: "CHR ''}'' \<notin> set p1" "CHR ''}'' \<notin> set p2"
           "content = pre @ effect_open @ (p1 @ func_name @ ''();'' @ p2) @ CHR ''}'' # tl" by blast
      have "CHR ''}'' \<notin> set (p1 @ func_name @ ''();'' @ p2)" using p(1,2) nb by simp
      then have "takeWhile (\<lambda>c. c \<noteq> CHR ''}'') ((p1 @ func_name @ ''();'' @ p2) @ CHR ''}'' # tl)
               = p1 @ func_name @ ''();'' @ p2"
        by (rule takeWhile_upto)
      moreover have "py_contains (p1 @ (func_name @ ''();'') @ p2) (func_name @ ''();'')"
        unfolding py_contains_iff by blast
      ultimately have "py_contains (takeWhile (\<lambda>c. c \<noteq> CHR ''}'')
           ((p1 @ func_name @ ''();'' @ p2) @ CHR ''}'' # tl)) (func_name @ ''();'')"
        by simp
      with h p(3) show False by blast
    qed
  next
    assume h: "\<not> py_contains content (func_name @ ''();'')"
    show "add_deps_to_useeffect content func_name = content"
    proof (rule ccontr)
      assume "add_deps_to_useeffect content func_name \<noteq> content"
      from shape [OF this] obtain pre p1 p2 tl where
        "content = pre @ effect_open @ (p1 @ func_name @ ''();'' @ p2) @ CHR ''}'' # tl" by blast
      then have "content = (pre @ effect_open @ p1) @ (func_name @ ''();'') @ (p2 @ CHR ''}'' # tl)"
        by simp
      then have "py_contains content (func_name @ ''();'')" unfolding py_contains_iff by blast
      with h show False by blast
    qed
  qed
qed




lemma effect_open_chars: "CHR ''['' \<notin> set effect_open" "effect_open \<noteq> []"
  by (simp_all add: effect_open_def)




























lemma render_context:
  "render func_name segs [] = [] \<or> (\<exists>z. render func_name segs [] = effect_open @ z) \<or> segs = [] \<or>
   (\<exists>g b1 b2 d rest. segs = (g, b1, b2, d) # rest)"
  by (cases segs) auto















text \<open>
  Claim C4. A second application is meant to change nothing. Here an inner block equals
  an earlier one, so the first application rewrites both copies and then no longer finds
  the outer block it matched; the second application finds it and puts the name into
  \<^verbatim>\<open>items[0]\<close>, the first bracket of the block.
\<close>

theorem add_deps_not_idempotent:
  "add_deps_to_useeffect
     ''useEffect(() => { loadX(); }, [id]); useEffect(() => { const v = items[0]; useEffect(() => { loadX(); }, [id]); }, []);''
     ''loadX''
   = ''useEffect(() => { loadX(); }, [id, loadX]); useEffect(() => { const v = items[0]; useEffect(() => { loadX(); }, [id, loadX]); }, []);'' \<and>
   add_deps_to_useeffect
     ''useEffect(() => { loadX(); }, [id, loadX]); useEffect(() => { const v = items[0]; useEffect(() => { loadX(); }, [id, loadX]); }, []);''
     ''loadX''
   = ''useEffect(() => { loadX(); }, [id, loadX]); useEffect(() => { const v = items[0, loadX]; useEffect(() => { loadX(); }, [id, loadX]); }, []);''"
  by code_simp

text \<open>
  Two more inputs on which the name is missing from the list and is not added to it: a
  list with white space inside the brackets, and a body with a bracket of its own.
\<close>

lemma add_deps_slips:
  "add_deps_to_useeffect ''useEffect(() => { loadX(); }, [ userId ]);'' ''loadX''
     = ''useEffect(() => { loadX(); }, [ userId ]);''"
  "add_deps_to_useeffect ''useEffect(() => { a[0]; loadX(); }, [userId]);'' ''loadX''
     = ''useEffect(() => { a[0, loadX]; loadX(); }, [userId]);''"
  by code_simp+

lemma has_flat_call_iff:
  "has_flat_call content func_name \<longleftrightarrow>
     (\<exists>pre rest. content = pre @ effect_open @ rest \<and>
        py_contains (takeWhile (\<lambda>c. c \<noteq> CHR ''}'') rest) (func_name @ ''();''))"
proof (induction content)
  case Nil
  then show ?case using effect_open_chars(2) by simp
next
  case (Cons x xs)
  let ?P = "\<lambda>rest. py_contains (takeWhile (\<lambda>c. c \<noteq> CHR ''}'') rest) (func_name @ ''();'')"
  show ?case
  proof
    assume "has_flat_call (x # xs) func_name"
    then consider "startswith (x # xs) effect_open \<and> ?P (drop (length effect_open) (x # xs))"
      | "has_flat_call xs func_name" by auto
    then show "\<exists>pre rest. x # xs = pre @ effect_open @ rest \<and> ?P rest"
    proof cases
      case 1
      then have "x # xs = [] @ effect_open @ drop (length effect_open) (x # xs)"
        using startswith_drop by simp
      with 1 show ?thesis by blast
    next
      case 2
      then obtain pre rest where "xs = pre @ effect_open @ rest" "?P rest" using Cons.IH by blast
      then have "x # xs = (x # pre) @ effect_open @ rest \<and> ?P rest" by simp
      then show ?thesis by blast
    qed
  next
    assume "\<exists>pre rest. x # xs = pre @ effect_open @ rest \<and> ?P rest"
    then obtain pre rest where pr: "x # xs = pre @ effect_open @ rest" "?P rest" by blast
    show "has_flat_call (x # xs) func_name"
    proof (cases pre)
      case Nil
      then have "x # xs = effect_open @ rest" using pr(1) by simp
      then have "startswith (x # xs) effect_open" "drop (length effect_open) (x # xs) = rest"
        by (simp_all add: startswith_iff)
      with pr(2) show ?thesis by simp
    next
      case (Cons y ys)
      then have "xs = ys @ effect_open @ rest" using pr(1) by simp
      with pr(2) have "has_flat_call xs func_name" using Cons.IH by blast
      then show ?thesis by simp
    qed
  qed
qed

theorem add_deps_needs_flat_body_witness:
  "plain_name ''loadX'' \<and>
   \<not> has_flat_call ''useEffect(() => { if (a) { b(); } loadX(); }, [userId]);'' ''loadX'' \<and>
   add_deps_to_useeffect ''useEffect(() => { if (a) { b(); } loadX(); }, [userId]);'' ''loadX''
     = ''useEffect(() => { if (a) { b(); } loadX(); }, [userId]);'' \<and>
   \<not> py_contains ''useEffect(() => { loadY(); }, [userId]);'' (''loadX'' @ ''();'') \<and>
   add_deps_to_useeffect ''useEffect(() => { loadY(); }, [userId]);'' ''loadX''
     = ''useEffect(() => { loadY(); }, [userId]);''"
proof -
  have 1: "plain_name ''loadX''" by (simp add: plain_name_def name_char_def)
  have 2: "\<not> has_flat_call ''useEffect(() => { if (a) { b(); } loadX(); }, [userId]);'' ''loadX''"
    by (simp add: effect_open_def)
  then have 3: "\<forall>pre rest.
      ''useEffect(() => { if (a) { b(); } loadX(); }, [userId]);'' = pre @ effect_open @ rest \<longrightarrow>
      \<not> py_contains (takeWhile (\<lambda>c. c \<noteq> CHR ''}'') rest) (''loadX'' @ ''();'')"
    unfolding has_flat_call_iff by blast
  have 4: "\<not> py_contains ''useEffect(() => { loadY(); }, [userId]);'' (''loadX'' @ ''();'')"
    by simp
  show ?thesis
    using add_deps_needs_flat_body [OF 1, of "''useEffect(() => { if (a) { b(); } loadX(); }, [userId]);''"]
      add_deps_needs_flat_body [OF 1, of "''useEffect(() => { loadY(); }, [userId]);''"] 1 2 3 4
    by blast
qed


end
